theory Spec2Isabelle
  imports Main
begin

section \<open>Data model\<close>

text \<open>
  The program is a Go websocket broadcaster: \<^verbatim>\<open>main.go\<close> with the trigger
  endpoint, a file with the connection handler and the broadcast, and a file with the
  client and its two loops.  A connection handle
  (\<^verbatim>\<open>*websocket.Conn\<close>) and a channel are references; both are modelled as
  natural numbers naming an entry of the \<open>world\<close> below.
\<close>

type_synonym conn = nat
type_synonym chan = nat

text \<open>\<^verbatim>\<open>type Message struct { Author string; Body string }\<close>\<close>

record Message =
  Author :: string
  Body :: string

text \<open>\<^verbatim>\<open>type Client struct { connection *websocket.Conn; ch chan *Message; close chan bool }\<close>\<close>

record Client =
  connection :: conn
  ch :: chan
  close :: chan

text \<open>The lines the program prints (\<^verbatim>\<open>fmt.Printf\<close>, \<^verbatim>\<open>log.Println\<close>).\<close>

datatype printed =
    Printf_Broadcasting Message
  | Printf_Received Message
  | Log_Send Message
  | Log_Listening

text \<open>
  The shared state: the global \<^verbatim>\<open>var clients []Client\<close>, the channels made so
  far (capacity given to \<^verbatim>\<open>make\<close>, buffered elements oldest first), the frames
  handed to \<^verbatim>\<open>websocket.JSON.Send\<close> per connection, the number of
  \<^verbatim>\<open>ws.Close()\<close> calls per connection, and the printed lines.
\<close>

record world =
  clients :: "Client list"
  chan_cap :: "chan \<Rightarrow> nat"
  chan_buf :: "chan \<Rightarrow> Message list"
  next_chan :: chan
  wire :: "conn \<Rightarrow> Message list"
  closed :: "conn \<Rightarrow> nat"
  stdout :: "printed list"

definition world0 :: world where
  "world0 = \<lparr>clients = [], chan_cap = (\<lambda>_. 0), chan_buf = (\<lambda>_. []), next_chan = 0,
     wire = (\<lambda>_. []), closed = (\<lambda>_. 0), stdout = []\<rparr>"

section \<open>Channels and the connection (Go runtime, golang.org/x/net/websocket)\<close>

text \<open>\<^verbatim>\<open>make(chan T, n)\<close>: a new channel, empty, of capacity \<open>n\<close>.\<close>

definition make_chan :: "nat \<Rightarrow> world \<Rightarrow> chan \<times> world" where
  "make_chan n w =
     (next_chan w,
      w\<lparr>chan_cap := (chan_cap w)(next_chan w := n),
        chan_buf := (chan_buf w)(next_chan w := []),
        next_chan := Suc (next_chan w)\<rparr>)"

text \<open>A send \<^verbatim>\<open>c <- m\<close> on a buffered channel goes through at once only when
  the buffer has room; otherwise the sender waits.\<close>

definition chan_full :: "world \<Rightarrow> chan \<Rightarrow> bool" where
  "chan_full w c = (chan_cap w c \<le> length (chan_buf w c))"

definition chan_put :: "chan \<Rightarrow> Message \<Rightarrow> world \<Rightarrow> world" where
  "chan_put c m w = w\<lparr>chan_buf := (chan_buf w)(c := chan_buf w c @ [m])\<rparr>"

text \<open>\<^verbatim>\<open>websocket.JSON.Send(conn, m)\<close>: one frame written to the connection
  (the program ignores the error it returns).\<close>

definition JSON_Send :: "conn \<Rightarrow> Message \<Rightarrow> world \<Rightarrow> world" where
  "JSON_Send k m w = w\<lparr>wire := (wire w)(k := wire w k @ [m])\<rparr>"

definition print_line :: "printed \<Rightarrow> world \<Rightarrow> world" where
  "print_line l w = w\<lparr>stdout := stdout w @ [l]\<rparr>"

section \<open>Client construction\<close>

text \<open>
  \<^verbatim>\<open>ch := make(chan *Message, 100); close := make(chan bool); return Client{ws, ch, close}\<close>
\<close>

definition NewClient :: "conn \<Rightarrow> world \<Rightarrow> Client \<times> world" where
  "NewClient ws w =
     (let (c1, w1) = make_chan 100 w;
          (c2, w2) = make_chan 0 w1
      in (\<lparr>connection = ws, ch = c1, close = c2\<rparr>, w2))"

section \<open>Registry and broadcast\<close>

text \<open>
  \<^verbatim>\<open>for _, c := range clients { c.ch <- msg }\<close>: the range loop over the
  slice as it was when the loop began.  Each send is a plain (blocking) channel send:
  \<open>Blocked rest w\<close> is the loop parked at the send to the first client of \<open>rest\<close>,
  the clients before it served; \<open>Done w\<close> is the loop run to its end.
\<close>

datatype outcome = Done world | Blocked "Client list" world

fun deliver :: "Message \<Rightarrow> Client list \<Rightarrow> world \<Rightarrow> outcome" where
  "deliver m [] w = Done w"
| "deliver m (c # cs) w =
     (if chan_full w (ch c) then Blocked (c # cs) w
      else deliver m cs (chan_put (ch c) m w))"

text \<open>\<^verbatim>\<open>func broadcast(msg *Message)\<close>: print, then the loop.\<close>

definition broadcast :: "Message \<Rightarrow> world \<Rightarrow> outcome" where
  "broadcast m w = deliver m (clients w) (print_line (Printf_Broadcasting m) w)"

text \<open>
  \<^verbatim>\<open>clients = append(list, client); websocket.JSON.Send(client.connection,
  Message{"Server", "Welcome!"}); return clients\<close>
\<close>

definition greeting :: Message where
  "greeting = \<lparr>Author = ''Server'', Body = ''Welcome!''\<rparr>"

definition addClientAndGreet :: "Client list \<Rightarrow> Client \<Rightarrow> world \<Rightarrow> Client list \<times> world" where
  "addClientAndGreet list client w =
     (let w1 = w\<lparr>clients := list @ [client]\<rparr>;
          w2 = JSON_Send (connection client) greeting w1
      in (clients w2, w2))"

text \<open>
  The part of \<^verbatim>\<open>onWsConnect\<close> before \<^verbatim>\<open>client.listen()\<close>:
  \<^verbatim>\<open>client := NewClient(ws); clients = addClientAndGreet(clients, client)\<close>.
\<close>

definition onWsConnect_enter :: "conn \<Rightarrow> world \<Rightarrow> Client \<times> world" where
  "onWsConnect_enter ws w =
     (let (client, w1) = NewClient ws w;
          (list, w2) = addClientAndGreet (clients w1) client w1
      in (client, w2\<lparr>clients := list\<rparr>))"

section \<open>The trigger endpoint (main.go)\<close>

text \<open>
  \<^verbatim>\<open>strings.Split(s, "/")\<close>, for a separator of one character: the pieces between
  the occurrences of the separator, so one piece more than there are separators.
\<close>

fun Split :: "char \<Rightarrow> string \<Rightarrow> string list" where
  "Split sep [] = [[]]"
| "Split sep (c # cs) =
     (if c = sep then [] # Split sep cs
      else (case Split sep cs of
              [] \<Rightarrow> [[c]]
            | p # ps \<Rightarrow> (c # p) # ps))"

datatype panic = IndexOutOfRange

text \<open>
  \<^verbatim>\<open>parts := strings.Split(r.URL.Path, "/"); return parts[2]\<close>.
  Go checks every index: \<^verbatim>\<open>parts[2]\<close> on a slice of fewer than three elements
  panics.
\<close>

definition readMsgFromRequest :: "string \<Rightarrow> panic + string" where
  "readMsgFromRequest path =
     (let parts = Split (CHR ''/'') path
      in if 2 < length parts then Inr (parts ! 2) else Inl IndexOutOfRange)"

text \<open>
  \<^verbatim>\<open>msg := readMsgFromRequest(r); broadcast(&Message{"Server", msg});
  fmt.Fprintf(w, "Broadcasting %v", msg)\<close>.  The handler panics where the
  extraction does, waits where the broadcast waits (the reply still to be written),
  and otherwise replies.
\<close>

datatype reply = Panicked panic | Waiting string "Client list" world | Replied string world

definition confirmation :: "string \<Rightarrow> string" where
  "confirmation msg = ''Broadcasting '' @ msg"

definition broadcastHandler :: "string \<Rightarrow> world \<Rightarrow> reply" where
  "broadcastHandler path w =
     (case readMsgFromRequest path of
        Inl p \<Rightarrow> Panicked p
      | Inr msg \<Rightarrow>
          (case broadcast \<lparr>Author = ''Server'', Body = msg\<rparr> w of
             Blocked rest w' \<Rightarrow> Waiting msg rest w'
           | Done w' \<Rightarrow> Replied (confirmation msg) w'))"

section \<open>Sessions: the two loops of a client\<close>

text \<open>
  What \<^verbatim>\<open>websocket.JSON.Receive(c.connection, &msg)\<close> gives: a decoded frame,
  \<^verbatim>\<open>io.EOF\<close>, or any other error (the error's text, and whatever the decoder left
  in \<^verbatim>\<open>msg\<close>).
\<close>

datatype recv = Frame Message | EOF | Failure string Message

definition zero_Message :: Message where
  "zero_Message = \<lparr>Author = [], Body = []\<rparr>"

text \<open>
  Where each goroutine of a session stands.  \<^verbatim>\<open>listenToRead\<close>: at its
  \<^verbatim>\<open>select\<close> (line 48), in \<^verbatim>\<open>Receive\<close> (line 59), at the send of line 62
  after \<^verbatim>\<open>io.EOF\<close>, inside \<^verbatim>\<open>broadcast\<close> with the clients still to serve
  (line 66), at the send of line 53, or returned (line 54).
  \<^verbatim>\<open>listenToWrite\<close>: at its \<^verbatim>\<open>select\<close> (line 31), about to send at
  line 39, parked in that send with no receiver yet, or returned (line 40).
  \<^verbatim>\<open>onWsConnect\<close>, once the loops run: inside \<^verbatim>\<open>client.listen()\<close>, or
  returned with the deferred \<^verbatim>\<open>ws.Close()\<close> run.
\<close>

datatype read_pc =
    R_Select | R_Receive | R_SendEOF | R_Broadcast Message "Client list" | R_SendBack | R_Returned

datatype write_pc = W_Select | W_Ack | W_SendAck | W_Returned

datatype handler_pc = H_Listen | H_Closed

record session =
  client :: Client
  rd :: read_pc
  wr :: write_pc
  handler :: handler_pc

text \<open>
  \<^verbatim>\<open>onWsConnect\<close> runs in a goroutine of its own for every connection and takes
  no lock, so the reads and writes of the global \<^verbatim>\<open>clients\<close> of two connects can
  interleave.  Where the handler of a connection stands before its loops run, the
  client made by \<^verbatim>\<open>NewClient\<close> in hand:
  about to evaluate the argument \<^verbatim>\<open>clients\<close> of \<^verbatim>\<open>addClientAndGreet\<close>;
  inside it with that value as \<^verbatim>\<open>list\<close>, about to run
  \<^verbatim>\<open>clients = append(list, client)\<close>; about to send the greeting; about to read
  \<^verbatim>\<open>clients\<close> for \<^verbatim>\<open>return clients\<close>; back in \<^verbatim>\<open>onWsConnect\<close> with the
  returned value, about to assign it to \<^verbatim>\<open>clients\<close>; about to call
  \<^verbatim>\<open>client.listen()\<close>.  A slice is taken as the list of its elements.
\<close>

datatype connect_pc =
    H_Arg | H_Append "Client list" | H_Greet | H_Result | H_Assign "Client list" | H_Start

text \<open>A request to \<^verbatim>\<open>/broadcast/\<close> in flight: inside \<^verbatim>\<open>broadcast\<close> (the
  text and the clients still to serve), replied, or panicked.\<close>

datatype request = Q_Broadcast string "Client list" | Q_Replied string | Q_Panicked panic

record system =
  shared :: world
  connecting :: "conn \<Rightarrow> (Client \<times> connect_pc) option"
  sessions :: "conn \<Rightarrow> session option"
  requests :: "nat \<Rightarrow> request option"

definition system0 :: system where
  "system0 = \<lparr>shared = world0, connecting = (\<lambda>_. None), sessions = (\<lambda>_. None),
     requests = (\<lambda>_. None)\<rparr>"

text \<open>
  One scheduling step.  An unbuffered channel passes a value only when a sender and a
  receiver meet, so each of the three sends on \<^verbatim>\<open>c.close\<close> is a joint step of
  both loops of one session (no other goroutine holds that channel):
  \<open>Sync_eof\<close> is line 62 meeting the write loop's \<^verbatim>\<open>case <-c.close\<close>,
  \<open>Sync_ack\<close> is line 39 meeting the read loop's \<^verbatim>\<open>case <-c.close\<close>,
  \<open>Sync_back\<close> is line 53 meeting the write loop's \<^verbatim>\<open>case <-c.close\<close>.
  The read loop's \<^verbatim>\<open>select\<close> has a \<^verbatim>\<open>default\<close> and never waits: it
  takes \<^verbatim>\<open>case <-c.close\<close> when the write loop is parked in the send of
  line 39 (\<open>Sync_ack\<close>) and \<^verbatim>\<open>default\<close> otherwise (\<open>Read_default\<close>);
  \<open>Write_park\<close> is the write loop reaching that send and finding no receiver.
  The write loop's \<^verbatim>\<open>select\<close> waits, and takes either case that is ready.
  \<open>Accept\<close> is \<^verbatim>\<open>onWsConnect\<close> entered for a new connection and its
  \<^verbatim>\<open>NewClient\<close>; \<open>Connect_arg\<close>, \<open>Connect_append\<close>, \<open>Connect_greet\<close>,
  \<open>Connect_result\<close> and \<open>Connect_assign\<close> are the five steps of
  \<^verbatim>\<open>clients = addClientAndGreet(clients, client)\<close> listed above, each access to
  the global a step of its own; \<open>Listen\<close> starts the write loop and enters the
  read loop.  \<open>Return\<close> is \<^verbatim>\<open>listen()\<close> returning, which runs the deferred
  \<^verbatim>\<open>ws.Close()\<close>.  \<open>Request\<close> is a request reaching \<^verbatim>\<open>broadcastHandler\<close>
  and \<open>Request_send\<close> one iteration of its broadcast.
\<close>

datatype event =
    Accept conn
  | Connect_arg conn
  | Connect_append conn
  | Connect_greet conn
  | Connect_result conn
  | Connect_assign conn
  | Listen conn
  | Read_default conn
  | Read_receive conn recv
  | Read_send conn
  | Write_msg conn
  | Write_park conn
  | Sync_eof conn
  | Sync_ack conn
  | Sync_back conn
  | Return conn
  | Request nat string
  | Request_send nat

text \<open>One iteration of the range loop of \<^verbatim>\<open>broadcast\<close>: \<open>None\<close> while the send
  must wait.\<close>

fun send_next :: "Message \<Rightarrow> Client list \<Rightarrow> world \<Rightarrow> (Client list \<times> world) option" where
  "send_next m [] w = None"
| "send_next m (c # cs) w =
     (if chan_full w (ch c) then None else Some (cs, chan_put (ch c) m w))"

definition set_session :: "conn \<Rightarrow> session \<Rightarrow> system \<Rightarrow> system" where
  "set_session ws p s = s\<lparr>sessions := (sessions s)(ws \<mapsto> p)\<rparr>"

definition set_connecting :: "conn \<Rightarrow> Client \<times> connect_pc \<Rightarrow> system \<Rightarrow> system" where
  "set_connecting ws h s = s\<lparr>connecting := (connecting s)(ws \<mapsto> h)\<rparr>"

fun step :: "system \<Rightarrow> event \<Rightarrow> system option" where
  "step s (Accept ws) =
     (if sessions s ws = None \<and> connecting s ws = None
      then (let (c, w) = NewClient ws (shared s)
            in Some (set_connecting ws (c, H_Arg) (s\<lparr>shared := w\<rparr>)))
      else None)"
| "step s (Connect_arg ws) =
     (case connecting s ws of
        Some (c, H_Arg) \<Rightarrow> Some (set_connecting ws (c, H_Append (clients (shared s))) s)
      | _ \<Rightarrow> None)"
| "step s (Connect_append ws) =
     (case connecting s ws of
        Some (c, H_Append list) \<Rightarrow>
          Some (set_connecting ws (c, H_Greet) (s\<lparr>shared := (shared s)\<lparr>clients := list @ [c]\<rparr>\<rparr>))
      | _ \<Rightarrow> None)"
| "step s (Connect_greet ws) =
     (case connecting s ws of
        Some (c, H_Greet) \<Rightarrow>
          Some (set_connecting ws (c, H_Result)
                  (s\<lparr>shared := JSON_Send (connection c) greeting (shared s)\<rparr>))
      | _ \<Rightarrow> None)"
| "step s (Connect_result ws) =
     (case connecting s ws of
        Some (c, H_Result) \<Rightarrow> Some (set_connecting ws (c, H_Assign (clients (shared s))) s)
      | _ \<Rightarrow> None)"
| "step s (Connect_assign ws) =
     (case connecting s ws of
        Some (c, H_Assign list) \<Rightarrow>
          Some (set_connecting ws (c, H_Start) (s\<lparr>shared := (shared s)\<lparr>clients := list\<rparr>\<rparr>))
      | _ \<Rightarrow> None)"
| "step s (Listen ws) =
     (case connecting s ws of
        Some (c, H_Start) \<Rightarrow>
          Some (set_session ws
                  \<lparr>client = c, rd = R_Select, wr = W_Select, handler = H_Listen\<rparr>
                  (s\<lparr>shared := print_line Log_Listening (shared s),
                     connecting := (connecting s)(ws := None)\<rparr>))
      | _ \<Rightarrow> None)"
| "step s (Read_default ws) =
     (case sessions s ws of
        None \<Rightarrow> None
      | Some p \<Rightarrow>
          (if rd p = R_Select \<and> wr p \<noteq> W_SendAck
           then Some (set_session ws (p\<lparr>rd := R_Receive\<rparr>) s)
           else None))"
| "step s (Read_receive ws r) =
     (case sessions s ws of
        None \<Rightarrow> None
      | Some p \<Rightarrow>
          (if rd p \<noteq> R_Receive then None
           else (case r of
                   EOF \<Rightarrow>
                     Some (set_session ws (p\<lparr>rd := R_SendEOF\<rparr>)
                       (s\<lparr>shared := print_line (Printf_Received zero_Message) (shared s)\<rparr>))
                 | Failure e m \<Rightarrow>
                     Some (set_session ws (p\<lparr>rd := R_Select\<rparr>)
                       (s\<lparr>shared := print_line (Printf_Received m) (shared s)\<rparr>))
                 | Frame m \<Rightarrow>
                     (let w = print_line (Printf_Received m) (shared s)
                      in Some (set_session ws (p\<lparr>rd := R_Broadcast m (clients w)\<rparr>)
                           (s\<lparr>shared := print_line (Printf_Broadcasting m) w\<rparr>))))))"
| "step s (Read_send ws) =
     (case sessions s ws of
        None \<Rightarrow> None
      | Some p \<Rightarrow>
          (case rd p of
             R_Broadcast m [] \<Rightarrow> Some (set_session ws (p\<lparr>rd := R_Select\<rparr>) s)
           | R_Broadcast m (c # cs) \<Rightarrow>
               (case send_next m (c # cs) (shared s) of
                  None \<Rightarrow> None
                | Some (rest, w) \<Rightarrow>
                    Some (set_session ws (p\<lparr>rd := R_Broadcast m rest\<rparr>) (s\<lparr>shared := w\<rparr>)))
           | _ \<Rightarrow> None))"
| "step s (Write_msg ws) =
     (case sessions s ws of
        None \<Rightarrow> None
      | Some p \<Rightarrow>
          (if wr p \<noteq> W_Select then None
           else (case chan_buf (shared s) (ch (client p)) of
                   [] \<Rightarrow> None
                 | m # ms \<Rightarrow>
                     (let w = shared s;
                          w1 = w\<lparr>chan_buf := (chan_buf w)(ch (client p) := ms)\<rparr>;
                          w2 = print_line (Log_Send m) w1
                      in Some (s\<lparr>shared := JSON_Send (connection (client p)) m w2\<rparr>)))))"
| "step s (Write_park ws) =
     (case sessions s ws of
        None \<Rightarrow> None
      | Some p \<Rightarrow>
          (if wr p = W_Ack then Some (set_session ws (p\<lparr>wr := W_SendAck\<rparr>) s)
           else None))"
| "step s (Sync_eof ws) =
     (case sessions s ws of
        None \<Rightarrow> None
      | Some p \<Rightarrow>
          (if rd p = R_SendEOF \<and> wr p = W_Select
           then Some (set_session ws (p\<lparr>rd := R_Select, wr := W_Ack\<rparr>) s)
           else None))"
| "step s (Sync_ack ws) =
     (case sessions s ws of
        None \<Rightarrow> None
      | Some p \<Rightarrow>
          (if wr p = W_SendAck \<and> rd p = R_Select
           then Some (set_session ws (p\<lparr>rd := R_SendBack, wr := W_Returned\<rparr>) s)
           else None))"
| "step s (Sync_back ws) =
     (case sessions s ws of
        None \<Rightarrow> None
      | Some p \<Rightarrow>
          (if rd p = R_SendBack \<and> wr p = W_Select
           then Some (set_session ws (p\<lparr>rd := R_Returned, wr := W_Ack\<rparr>) s)
           else None))"
| "step s (Return ws) =
     (case sessions s ws of
        None \<Rightarrow> None
      | Some p \<Rightarrow>
          (if rd p = R_Returned \<and> handler p = H_Listen
           then Some (set_session ws (p\<lparr>handler := H_Closed\<rparr>)
                  (s\<lparr>shared := (shared s)\<lparr>closed :=
                      (closed (shared s))(connection (client p) :=
                         Suc (closed (shared s) (connection (client p))))\<rparr>\<rparr>))
           else None))"
| "step s (Request i path) =
     (case requests s i of
        Some q \<Rightarrow> None
      | None \<Rightarrow>
          (case readMsgFromRequest path of
             Inl e \<Rightarrow> Some (s\<lparr>requests := (requests s)(i \<mapsto> Q_Panicked e)\<rparr>)
           | Inr msg \<Rightarrow>
               Some (s\<lparr>shared := print_line
                          (Printf_Broadcasting \<lparr>Author = ''Server'', Body = msg\<rparr>) (shared s),
                        requests := (requests s)(i \<mapsto> Q_Broadcast msg (clients (shared s)))\<rparr>)))"
| "step s (Request_send i) =
     (case requests s i of
        Some (Q_Broadcast msg []) \<Rightarrow>
          Some (s\<lparr>requests := (requests s)(i \<mapsto> Q_Replied (confirmation msg))\<rparr>)
      | Some (Q_Broadcast msg (c # cs)) \<Rightarrow>
          (case send_next \<lparr>Author = ''Server'', Body = msg\<rparr> (c # cs) (shared s) of
             None \<Rightarrow> None
           | Some (rest, w) \<Rightarrow>
               Some (s\<lparr>shared := w, requests := (requests s)(i \<mapsto> Q_Broadcast msg rest)\<rparr>))
      | _ \<Rightarrow> None)"

fun run :: "system \<Rightarrow> event list \<Rightarrow> system option" where
  "run s [] = Some s"
| "run s (e # es) = (case step s e of None \<Rightarrow> None | Some s' \<Rightarrow> run s' es)"

text \<open>The handler of one connection run from its entry to the start of its loops, no
  other goroutine in between.\<close>

definition connect :: "conn \<Rightarrow> event list" where
  "connect ws = [Accept ws, Connect_arg ws, Connect_append ws, Connect_greet ws,
     Connect_result ws, Connect_assign ws, Listen ws]"

section \<open>Invariants of the running system\<close>

text \<open>The termination handshake: the read loop has not returned; when it stands at the
  send of line 53 the write loop has returned; the handler is still inside
  \<^verbatim>\<open>listen()\<close>.\<close>

definition handshake_inv :: "system \<Rightarrow> bool" where
  "handshake_inv s =
     (\<forall>ws p. sessions s ws = Some p \<longrightarrow>
        rd p \<noteq> R_Returned \<and> (rd p = R_SendBack \<longrightarrow> wr p = W_Returned) \<and>
        handler p = H_Listen)"

text \<open>A connection is being connected or has a session, not both.\<close>

definition excl_inv :: "system \<Rightarrow> bool" where
  "excl_inv s = (\<forall>ws p. sessions s ws = Some p \<longrightarrow> connecting s ws = None)"

text \<open>Whether a connecting handler has sent its greeting, and whether it has run its
  \<^verbatim>\<open>append\<close>.\<close>

fun greeted :: "connect_pc \<Rightarrow> bool" where
  "greeted H_Arg = False"
| "greeted (H_Append l) = False"
| "greeted H_Greet = False"
| "greeted H_Result = True"
| "greeted (H_Assign l) = True"
| "greeted H_Start = True"

fun past_append :: "connect_pc \<Rightarrow> bool" where
  "past_append H_Arg = False"
| "past_append (H_Append l) = False"
| "past_append H_Greet = True"
| "past_append H_Result = True"
| "past_append (H_Assign l) = True"
| "past_append H_Start = True"

text \<open>
  A connection that has not been accepted has had no frame written.  A connecting
  handler has had the greeting written, alone, once it is past its send, and nothing
  before.  The first frame written to a session's connection is the greeting.  A
  connection is connecting or has a session, not both.
\<close>

definition greeted_at :: "system \<Rightarrow> conn \<Rightarrow> bool" where
  "greeted_at s ws =
     (case sessions s ws of
        Some p \<Rightarrow> connection (client p) = ws \<and> connecting s ws = None \<and>
                 (\<exists>rest. wire (shared s) ws = greeting # rest)
      | None \<Rightarrow>
          (case connecting s ws of
             None \<Rightarrow> wire (shared s) ws = []
           | Some (c, pc) \<Rightarrow>
               connection c = ws \<and>
               wire (shared s) ws = (if greeted pc then [greeting] else [])))"

definition greeted_inv :: "system \<Rightarrow> bool" where
  "greeted_inv s = (\<forall>ws. greeted_at s ws)"

text \<open>The client a connection has, connecting or in session.\<close>

definition owner :: "system \<Rightarrow> conn \<Rightarrow> Client option" where
  "owner s ws =
     (case sessions s ws of
        Some p \<Rightarrow> Some (client p)
      | None \<Rightarrow> map_option fst (connecting s ws))"

text \<open>Every such client's message channel is allocated and of capacity 100, different
  connections have different message channels, and no buffer holds more than its
  capacity.\<close>

definition owners_inv :: "system \<Rightarrow> bool" where
  "owners_inv s =
     ((\<forall>ws c. owner s ws = Some c \<longrightarrow>
         ch c < next_chan (shared s) \<and> chan_cap (shared s) (ch c) = 100) \<and>
      (\<forall>ws ws' c c'. owner s ws = Some c \<and> owner s ws' = Some c' \<and> ch c = ch c' \<longrightarrow> ws = ws') \<and>
      (\<forall>k. length (chan_buf (shared s) k) \<le> chan_cap (shared s) k))"

text \<open>A client whose handler has run its \<^verbatim>\<open>append\<close>.\<close>

definition appended :: "system \<Rightarrow> Client \<Rightarrow> bool" where
  "appended s c =
     (\<exists>ws. (\<exists>p. sessions s ws = Some p \<and> client p = c) \<or>
           (\<exists>pc. connecting s ws = Some (c, pc) \<and> past_append pc))"

text \<open>The registry, and every value of it a connecting handler holds, lists clients
  of distinct message channels whose handlers have run their \<^verbatim>\<open>append\<close>.\<close>

definition listed :: "system \<Rightarrow> Client list \<Rightarrow> bool" where
  "listed s l = (distinct (map ch l) \<and> (\<forall>c\<in>set l. appended s c))"

definition registry_inv :: "system \<Rightarrow> bool" where
  "registry_inv s =
     (listed s (clients (shared s)) \<and>
      (\<forall>ws c l. connecting s ws = Some (c, H_Append l) \<longrightarrow> listed s l) \<and>
      (\<forall>ws c l. connecting s ws = Some (c, H_Assign l) \<longrightarrow> listed s l))"

definition system_inv :: "system \<Rightarrow> bool" where
  "system_inv s =
     (handshake_inv s \<and> excl_inv s \<and> greeted_inv s \<and> owners_inv s \<and> registry_inv s \<and>
      (\<forall>ws. closed (shared s) ws = 0))"


text \<open>The read loop waiting at the send of line 53, the write loop returned.\<close>

definition parked :: "system \<Rightarrow> conn \<Rightarrow> bool" where
  "parked s ws =
     (case sessions s ws of None \<Rightarrow> False | Some p \<Rightarrow> rd p = R_SendBack \<and> wr p = W_Returned)"

section \<open>Concrete inputs\<close>

text \<open>A client connects and closes cleanly: \<^verbatim>\<open>Receive\<close> gives \<^verbatim>\<open>io.EOF\<close>,
  line 62 meets the write loop, which parks at line 39 until the read loop's
  \<^verbatim>\<open>select\<close> takes its value.\<close>

definition clean_disconnect :: "event list" where
  "clean_disconnect =
     connect 0 @ [Read_default 0, Read_receive 0 EOF, Sync_eof 0, Write_park 0, Sync_ack 0]"

text \<open>The same, the read loop going round once more before the write loop parks:
  \<^verbatim>\<open>Receive\<close> gives \<^verbatim>\<open>io.EOF\<close> again and both loops stand in a send on
  \<^verbatim>\<open>c.close\<close>.\<close>

definition clean_disconnect_twice :: "event list" where
  "clean_disconnect_twice =
     connect 0 @ [Read_default 0, Read_receive 0 EOF, Sync_eof 0,
                  Read_default 0, Read_receive 0 EOF, Write_park 0]"

text \<open>A read error arriving when the write loop is already parked at line 39.\<close>

definition error_after_eof :: "event list" where
  "error_after_eof =
     connect 0 @ [Read_default 0, Read_receive 0 EOF, Sync_eof 0, Read_default 0, Write_park 0,
                  Read_receive 0 (Failure ''use of closed network connection'' zero_Message)]"

text \<open>A message a client sends.\<close>

definition hi :: Message where
  "hi = \<lparr>Author = ''A'', Body = ''hi''\<rparr>"

text \<open>
  Two clients are connected and the first one's queue holds 100 messages it has not
  written out yet.
\<close>

definition slow_client :: Client where
  "slow_client = \<lparr>connection = 0, ch = 0, close = 1\<rparr>"

definition other_client :: Client where
  "other_client = \<lparr>connection = 1, ch = 2, close = 3\<rparr>"

definition full_world :: world where
  "full_world =
     (let w = snd (onWsConnect_enter 1 (snd (onWsConnect_enter 0 world0)))
      in w\<lparr>chan_buf := (chan_buf w)(0 := replicate 100 hi)\<rparr>)"


text \<open>
  Two connections accepted at the same time: both handlers read the empty registry,
  both append to it, the second write replaces the first, and both go on to greet and
  listen.
\<close>

definition overlapping_connects :: "event list" where
  "overlapping_connects =
     [Accept 0, Accept 1, Connect_arg 0, Connect_arg 1, Connect_append 0, Connect_append 1,
      Connect_greet 0, Connect_greet 1, Connect_result 0, Connect_result 1,
      Connect_assign 0, Connect_assign 1, Listen 0, Listen 1]"

section \<open>Auxiliary facts\<close>

lemma Split_not_Nil: "Split sep s \<noteq> []"
  by (induction s) (auto split: list.splits)

lemma Split_no_sep: "sep \<notin> set s \<Longrightarrow> Split sep s = [s]"
  by (induction s) auto

lemma Split_append_sep:
  "sep \<notin> set a \<Longrightarrow> Split sep (a @ sep # rest) = a # Split sep rest"
  by (induction a) auto

lemma length_Split: "length (Split sep s) = Suc (count_list s sep)"
  by (induction s) (auto split: list.splits)

lemma deliver_frame:
  "deliver m cs w = Done w' \<or> deliver m cs w = Blocked rest w' \<Longrightarrow>
     clients w' = clients w \<and> wire w' = wire w \<and> closed w' = closed w \<and>
     stdout w' = stdout w \<and> chan_cap w' = chan_cap w \<and> next_chan w' = next_chan w"
  by (induction cs arbitrary: w) (auto simp: chan_put_def split: if_splits)

lemma deliver_Done_buf:
  "deliver m cs w = Done w' \<Longrightarrow>
     chan_buf w' k = chan_buf w k @ replicate (count_list (map ch cs) k) m"
  by (induction cs arbitrary: w) (auto simp: chan_put_def replicate_append_same split: if_splits)

lemma chan_full_put_other:
  "k \<noteq> k' \<Longrightarrow> chan_full (chan_put k' m w) k = chan_full w k"
  by (simp add: chan_full_def chan_put_def)

lemma deliver_room:
  "distinct (map ch cs) \<Longrightarrow> \<forall>x\<in>set cs. \<not> chan_full w (ch x) \<Longrightarrow> \<exists>w'. deliver m cs w = Done w'"
proof (induction cs arbitrary: w)
  case Nil
  then show ?case by simp
next
  case (Cons c cs)
  have "ch x \<noteq> ch c" if "x \<in> set cs" for x
    using that Cons.prems(1) by (auto simp: image_iff)
  then have "\<forall>x\<in>set cs. \<not> chan_full (chan_put (ch c) m w) (ch x)"
    using Cons.prems(2) by (simp add: chan_full_put_other)
  with Cons show ?case by simp
qed

lemma deliver_blocked:
  "distinct (map ch (pre @ c # post)) \<Longrightarrow> \<forall>x\<in>set pre. \<not> chan_full w (ch x) \<Longrightarrow>
   chan_full w (ch c) \<Longrightarrow>
   \<exists>w'. deliver m (pre @ c # post) w = Blocked (c # post) w' \<and>
        (\<forall>x\<in>set pre. chan_buf w' (ch x) = chan_buf w (ch x) @ [m]) \<and>
        (\<forall>k. k \<notin> ch ` set pre \<longrightarrow> chan_buf w' k = chan_buf w k)"
proof (induction pre arbitrary: w)
  case Nil
  then show ?case by simp
next
  case (Cons a pre)
  let ?w1 = "chan_put (ch a) m w"
  have d: "distinct (map ch (pre @ c # post))" using Cons.prems(1) by simp
  have "ch x \<noteq> ch a" if "x \<in> set pre" for x
    using that Cons.prems(1) by (auto simp: image_iff)
  then have r: "\<forall>x\<in>set pre. \<not> chan_full ?w1 (ch x)"
    using Cons.prems(2) by (simp add: chan_full_put_other)
  have "ch c \<noteq> ch a" using Cons.prems(1) by auto
  then have f: "chan_full ?w1 (ch c)"
    using Cons.prems(3) by (simp add: chan_full_put_other)
  from Cons.IH[OF d r f] obtain w' where
    w': "deliver m (pre @ c # post) ?w1 = Blocked (c # post) w'"
        "\<forall>x\<in>set pre. chan_buf w' (ch x) = chan_buf ?w1 (ch x) @ [m]"
        "\<forall>k. k \<notin> ch ` set pre \<longrightarrow> chan_buf w' k = chan_buf ?w1 k"
    by blast
  have a: "ch a \<notin> ch ` set pre" using Cons.prems(1) by auto
  have "deliver m ((a # pre) @ c # post) w = Blocked (c # post) w'"
    using w'(1) Cons.prems(2) by simp
  moreover have "\<forall>x\<in>set (a # pre). chan_buf w' (ch x) = chan_buf w (ch x) @ [m]"
    using w'(2,3) a by (auto simp: chan_put_def)
  moreover have "\<forall>k. k \<notin> ch ` set (a # pre) \<longrightarrow> chan_buf w' k = chan_buf w k"
    using w'(3) by (auto simp: chan_put_def)
  ultimately show ?case by blast
qed

lemma hd_Split: "Split sep s = takeWhile (\<lambda>c. c \<noteq> sep) s # tl (Split sep s)"
  by (induction s) (auto split: list.splits)

lemma Split_routed:
  "Split (CHR ''/'') (''/broadcast/'' @ rest) = [] # ''broadcast'' # Split (CHR ''/'') rest"
  using Split_append_sep[of "CHR ''/''" "''broadcast''" rest] by simp

lemma readMsg_routed:
  "readMsgFromRequest (''/broadcast/'' @ rest) = Inr (takeWhile (\<lambda>c. c \<noteq> CHR ''/'') rest)"
proof -
  obtain p ps where ps: "Split (CHR ''/'') rest = p # ps"
    using Split_not_Nil[of "CHR ''/''" rest] by (cases "Split (CHR ''/'') rest") auto
  then have "p = takeWhile (\<lambda>c. c \<noteq> CHR ''/'') rest"
    using hd_Split[of "CHR ''/''" rest] by simp
  then show ?thesis
    unfolding readMsgFromRequest_def Split_routed ps by simp
qed


subsection \<open>The world operations, field by field\<close>

lemma chan_put_fields:
  "clients (chan_put k m w) = clients w"
  "chan_cap (chan_put k m w) = chan_cap w"
  "chan_buf (chan_put k m w) = (chan_buf w)(k := chan_buf w k @ [m])"
  "next_chan (chan_put k m w) = next_chan w"
  "wire (chan_put k m w) = wire w"
  "closed (chan_put k m w) = closed w"
  "stdout (chan_put k m w) = stdout w"
  by (simp_all add: chan_put_def)

lemma print_line_fields:
  "clients (print_line l w) = clients w"
  "chan_cap (print_line l w) = chan_cap w"
  "chan_buf (print_line l w) = chan_buf w"
  "next_chan (print_line l w) = next_chan w"
  "wire (print_line l w) = wire w"
  "closed (print_line l w) = closed w"
  "stdout (print_line l w) = stdout w @ [l]"
  by (simp_all add: print_line_def)

lemma JSON_Send_fields:
  "clients (JSON_Send k m w) = clients w"
  "chan_cap (JSON_Send k m w) = chan_cap w"
  "chan_buf (JSON_Send k m w) = chan_buf w"
  "next_chan (JSON_Send k m w) = next_chan w"
  "wire (JSON_Send k m w) = (wire w)(k := wire w k @ [m])"
  "closed (JSON_Send k m w) = closed w"
  "stdout (JSON_Send k m w) = stdout w"
  by (simp_all add: JSON_Send_def)

lemma onWsConnect_enter_effect:
  "onWsConnect_enter ws w =
     (\<lparr>connection = ws, ch = next_chan w, close = Suc (next_chan w)\<rparr>,
      w\<lparr>clients := clients w @ [\<lparr>connection = ws, ch = next_chan w, close = Suc (next_chan w)\<rparr>],
        chan_cap := (chan_cap w)(next_chan w := 100, Suc (next_chan w) := 0),
        chan_buf := (chan_buf w)(next_chan w := [], Suc (next_chan w) := []),
        next_chan := Suc (Suc (next_chan w)),
        wire := (wire w)(ws := wire w ws @ [greeting])\<rparr>)"
  by (simp add: onWsConnect_enter_def NewClient_def make_chan_def addClientAndGreet_def
        JSON_Send_def Let_def)

lemma NewClient_effect:
  "NewClient ws w =
     (\<lparr>connection = ws, ch = next_chan w, close = Suc (next_chan w)\<rparr>,
      w\<lparr>chan_cap := (chan_cap w)(next_chan w := 100, Suc (next_chan w) := 0),
        chan_buf := (chan_buf w)(next_chan w := [], Suc (next_chan w) := []),
        next_chan := Suc (Suc (next_chan w))\<rparr>)"
  by (simp add: NewClient_def make_chan_def Let_def)

lemma sessions_set_session:
  "sessions (set_session x p s) ws = (if ws = x then Some p else sessions s ws)"
  by (simp add: set_session_def)

lemma shared_set_session: "shared (set_session x p s) = shared s"
  by (simp add: set_session_def)

lemma requests_set_session: "requests (set_session x p s) = requests s"
  by (simp add: set_session_def)

subsection \<open>What each step does\<close>

lemma step_Accept:
  assumes "step s (Accept x) = Some s'"
  obtains "sessions s x = None" "connecting s x = None"
    "s' = set_connecting x (fst (NewClient x (shared s)), H_Arg)
            (s\<lparr>shared := snd (NewClient x (shared s))\<rparr>)"
  using assms by (auto split: if_splits prod.splits)

lemma step_Connect_arg:
  assumes "step s (Connect_arg x) = Some s'"
  obtains c where "connecting s x = Some (c, H_Arg)"
    "s' = set_connecting x (c, H_Append (clients (shared s))) s"
  using assms by (auto split: option.splits prod.splits connect_pc.splits)

lemma step_Connect_append:
  assumes "step s (Connect_append x) = Some s'"
  obtains c l where "connecting s x = Some (c, H_Append l)"
    "s' = set_connecting x (c, H_Greet) (s\<lparr>shared := (shared s)\<lparr>clients := l @ [c]\<rparr>\<rparr>)"
  using assms by (auto split: option.splits prod.splits connect_pc.splits)

lemma step_Connect_greet:
  assumes "step s (Connect_greet x) = Some s'"
  obtains c where "connecting s x = Some (c, H_Greet)"
    "s' = set_connecting x (c, H_Result)
            (s\<lparr>shared := JSON_Send (connection c) greeting (shared s)\<rparr>)"
  using assms by (auto split: option.splits prod.splits connect_pc.splits)

lemma step_Connect_result:
  assumes "step s (Connect_result x) = Some s'"
  obtains c where "connecting s x = Some (c, H_Result)"
    "s' = set_connecting x (c, H_Assign (clients (shared s))) s"
  using assms by (auto split: option.splits prod.splits connect_pc.splits)

lemma step_Connect_assign:
  assumes "step s (Connect_assign x) = Some s'"
  obtains c l where "connecting s x = Some (c, H_Assign l)"
    "s' = set_connecting x (c, H_Start) (s\<lparr>shared := (shared s)\<lparr>clients := l\<rparr>\<rparr>)"
  using assms by (auto split: option.splits prod.splits connect_pc.splits)

lemma step_Listen:
  assumes "step s (Listen x) = Some s'"
  obtains c where "connecting s x = Some (c, H_Start)"
    "s' = set_session x \<lparr>client = c, rd = R_Select, wr = W_Select, handler = H_Listen\<rparr>
            (s\<lparr>shared := print_line Log_Listening (shared s),
               connecting := (connecting s)(x := None)\<rparr>)"
  using assms by (auto split: option.splits prod.splits connect_pc.splits)

lemma step_Read_default:
  assumes "step s (Read_default x) = Some s'"
  obtains p where "sessions s x = Some p" "rd p = R_Select" "wr p \<noteq> W_SendAck"
    "s' = set_session x (p\<lparr>rd := R_Receive\<rparr>) s"
  using assms by (auto split: option.splits if_splits)

lemma step_Read_receive:
  assumes "step s (Read_receive x r) = Some s'"
  obtains p where "sessions s x = Some p" "rd p = R_Receive"
    "s' = set_session x
       (p\<lparr>rd := (case r of EOF \<Rightarrow> R_SendEOF | Failure e m \<Rightarrow> R_Select
                   | Frame m \<Rightarrow> R_Broadcast m (clients (shared s)))\<rparr>)
       (s\<lparr>shared := (case r of
            EOF \<Rightarrow> print_line (Printf_Received zero_Message) (shared s)
          | Failure e m \<Rightarrow> print_line (Printf_Received m) (shared s)
          | Frame m \<Rightarrow> print_line (Printf_Broadcasting m)
                         (print_line (Printf_Received m) (shared s)))\<rparr>)"
  using assms
  by (cases r) (auto simp: Let_def print_line_fields split: option.splits if_splits)

lemma step_Read_send:
  assumes "step s (Read_send x) = Some s'"
  obtains p m where "sessions s x = Some p" "rd p = R_Broadcast m []"
      "s' = set_session x (p\<lparr>rd := R_Select\<rparr>) s"
  | p m c cs where "sessions s x = Some p" "rd p = R_Broadcast m (c # cs)"
      "\<not> chan_full (shared s) (ch c)"
      "s' = set_session x (p\<lparr>rd := R_Broadcast m cs\<rparr>) (s\<lparr>shared := chan_put (ch c) m (shared s)\<rparr>)"
  using assms
  by (auto split: option.splits if_splits read_pc.splits list.splits)

lemma step_Write_msg:
  assumes "step s (Write_msg x) = Some s'"
  obtains p m ms where "sessions s x = Some p" "wr p = W_Select"
    "chan_buf (shared s) (ch (client p)) = m # ms"
    "s' = s\<lparr>shared := JSON_Send (connection (client p)) m
             (print_line (Log_Send m)
               ((shared s)\<lparr>chan_buf := (chan_buf (shared s))(ch (client p) := ms)\<rparr>))\<rparr>"
  using assms
  by (auto simp: Let_def split: option.splits if_splits list.splits)

lemma step_Write_park:
  assumes "step s (Write_park x) = Some s'"
  obtains p where "sessions s x = Some p" "wr p = W_Ack"
    "s' = set_session x (p\<lparr>wr := W_SendAck\<rparr>) s"
  using assms by (auto split: option.splits if_splits)

lemma step_Sync_eof:
  assumes "step s (Sync_eof x) = Some s'"
  obtains p where "sessions s x = Some p" "rd p = R_SendEOF" "wr p = W_Select"
    "s' = set_session x (p\<lparr>rd := R_Select, wr := W_Ack\<rparr>) s"
  using assms by (auto split: option.splits if_splits)

lemma step_Sync_ack:
  assumes "step s (Sync_ack x) = Some s'"
  obtains p where "sessions s x = Some p" "rd p = R_Select" "wr p = W_SendAck"
    "s' = set_session x (p\<lparr>rd := R_SendBack, wr := W_Returned\<rparr>) s"
  using assms by (auto split: option.splits if_splits)

lemma step_Sync_back:
  assumes "step s (Sync_back x) = Some s'"
  obtains p where "sessions s x = Some p" "rd p = R_SendBack" "wr p = W_Select"
    "s' = set_session x (p\<lparr>rd := R_Returned, wr := W_Ack\<rparr>) s"
  using assms by (auto split: option.splits if_splits)

lemma step_Return:
  assumes "step s (Return x) = Some s'"
  obtains p where "sessions s x = Some p" "rd p = R_Returned" "handler p = H_Listen"
    "s' = set_session x (p\<lparr>handler := H_Closed\<rparr>)
            (s\<lparr>shared := (shared s)\<lparr>closed :=
                (closed (shared s))(connection (client p) :=
                   Suc (closed (shared s) (connection (client p))))\<rparr>\<rparr>)"
  using assms by (auto split: option.splits if_splits)

lemma step_Request:
  assumes "step s (Request i path) = Some s'"
  obtains e where "requests s i = None" "readMsgFromRequest path = Inl e"
      "s' = s\<lparr>requests := (requests s)(i \<mapsto> Q_Panicked e)\<rparr>"
  | msg where "requests s i = None" "readMsgFromRequest path = Inr msg"
      "s' = s\<lparr>shared := print_line (Printf_Broadcasting \<lparr>Author = ''Server'', Body = msg\<rparr>)
                          (shared s),
               requests := (requests s)(i \<mapsto> Q_Broadcast msg (clients (shared s)))\<rparr>"
  using assms by (auto split: option.splits sum.splits)

lemma step_Request_send:
  assumes "step s (Request_send i) = Some s'"
  obtains msg where "requests s i = Some (Q_Broadcast msg [])"
      "s' = s\<lparr>requests := (requests s)(i \<mapsto> Q_Replied (confirmation msg))\<rparr>"
  | msg c cs where "requests s i = Some (Q_Broadcast msg (c # cs))"
      "\<not> chan_full (shared s) (ch c)"
      "s' = s\<lparr>shared := chan_put (ch c) \<lparr>Author = ''Server'', Body = msg\<rparr> (shared s),
               requests := (requests s)(i \<mapsto> Q_Broadcast msg cs)\<rparr>"
  using assms
  by (auto split: option.splits request.splits list.splits if_splits)

lemmas step_splits =
  option.splits if_splits prod.splits recv.splits read_pc.splits list.splits
  request.splits sum.splits connect_pc.splits

declare step.simps [simp del]

subsection \<open>The invariants hold in every reachable state\<close>

lemma handshake_inv_step:
  "handshake_inv s \<Longrightarrow> step s e = Some s' \<Longrightarrow> handshake_inv s'"
  unfolding handshake_inv_def
  by (cases e)
     (auto simp: step.simps set_session_def set_connecting_def Let_def split: step_splits)

lemma closed_step:
  "handshake_inv s \<Longrightarrow> step s e = Some s' \<Longrightarrow> closed (shared s') = closed (shared s)"
  unfolding handshake_inv_def
  by (cases e)
     (auto simp: step.simps set_session_def set_connecting_def Let_def NewClient_effect
                 JSON_Send_def print_line_def chan_put_def
           split: step_splits)

lemma excl_inv_step:
  "excl_inv s \<Longrightarrow> step s e = Some s' \<Longrightarrow> excl_inv s'"
  unfolding excl_inv_def
  by (cases e)
     (auto simp: step.simps set_session_def set_connecting_def Let_def split: step_splits)

lemma session_step:
  "excl_inv s \<Longrightarrow> sessions s ws = Some p \<Longrightarrow> step s e = Some s' \<Longrightarrow>
     \<exists>p'. sessions s' ws = Some p' \<and> client p' = client p"
  unfolding excl_inv_def
  by (cases e)
     (auto simp: step.simps set_session_def set_connecting_def Let_def split: step_splits)

lemma parked_step:
  "excl_inv s \<Longrightarrow> parked s ws \<Longrightarrow> step s e = Some s' \<Longrightarrow> parked s' ws"
  unfolding parked_def excl_inv_def
  by (cases e)
     (auto simp: step.simps set_session_def set_connecting_def Let_def split: step_splits)

lemma owner_step:
  "excl_inv s \<Longrightarrow> step s e = Some s' \<Longrightarrow> owner s ws = Some c \<Longrightarrow> owner s' ws = Some c"
  unfolding excl_inv_def owner_def
  by (cases e)
     (auto simp: step.simps set_session_def set_connecting_def Let_def NewClient_effect split: step_splits)

lemma owner_new:
  "excl_inv s \<Longrightarrow> step s e = Some s' \<Longrightarrow> owner s' ws = Some c \<Longrightarrow>
     owner s ws = Some c \<or>
     (e = Accept ws \<and> owner s ws = None \<and>
      c = \<lparr>connection = ws, ch = next_chan (shared s), close = Suc (next_chan (shared s))\<rparr>)"
  unfolding owner_def excl_inv_def
  by (cases e)
     (auto simp: step.simps set_session_def set_connecting_def Let_def NewClient_effect split: step_splits)

lemma chan_step:
  assumes "step s e = Some s'"
    and b: "\<forall>k. length (chan_buf (shared s) k) \<le> chan_cap (shared s) k"
  shows "\<forall>k. length (chan_buf (shared s') k) \<le> chan_cap (shared s') k"
proof (cases e)
  case (Write_msg x)
  with assms(1) have "step s (Write_msg x) = Some s'"
    by simp
  then show ?thesis
  proof (rule step_Write_msg)
    fix p m ms
    assume p: "chan_buf (shared s) (ch (client p)) = m # ms"
      and s': "s' = s\<lparr>shared := JSON_Send (connection (client p)) m
             (print_line (Log_Send m)
               ((shared s)\<lparr>chan_buf := (chan_buf (shared s))(ch (client p) := ms)\<rparr>))\<rparr>"
    have "length (chan_buf (shared s) (ch (client p))) \<le> chan_cap (shared s) (ch (client p))"
      using b by blast
    then have "length ms \<le> chan_cap (shared s) (ch (client p))"
      using p by simp
    then show ?thesis
      using b by (simp add: s' JSON_Send_fields print_line_fields)
  qed
qed (use assms in \<open>auto simp: step.simps set_session_def set_connecting_def Let_def NewClient_effect
                 JSON_Send_def print_line_def chan_put_def chan_full_def
           split: step_splits\<close>)

lemma alloc_step:
  "step s e = Some s' \<Longrightarrow>
     ((\<forall>ws. e \<noteq> Accept ws) \<longrightarrow>
        next_chan (shared s') = next_chan (shared s) \<and> chan_cap (shared s') = chan_cap (shared s)) \<and>
     ((\<exists>ws. e = Accept ws) \<longrightarrow>
        next_chan (shared s') = Suc (Suc (next_chan (shared s))) \<and>
        chan_cap (shared s') =
          (chan_cap (shared s))(next_chan (shared s) := 100, Suc (next_chan (shared s)) := 0))"
  by (cases e)
     (auto simp: step.simps set_session_def set_connecting_def Let_def NewClient_effect
                 JSON_Send_def print_line_def chan_put_def
           split: step_splits)

lemma owners_inv_step:
  assumes x: "excl_inv s" and o: "owners_inv s" and st: "step s e = Some s'"
  shows "owners_inv s'"
proof -
  let ?n = "next_chan (shared s)"
  have bound: "ch c < ?n \<and> chan_cap (shared s) (ch c) = 100" if "owner s ws = Some c" for ws c
    using o that unfolding owners_inv_def by blast
  have inj: "ws = ws'" if "owner s ws = Some c" "owner s ws' = Some c'" "ch c = ch c'"
    for ws ws' c c'
    using o that unfolding owners_inv_def by blast
  note al = alloc_step[OF st]
  have 1: "ch c < next_chan (shared s') \<and> chan_cap (shared s') (ch c) = 100"
    if "owner s' ws = Some c" for ws c
  proof -
    from owner_new[OF x st that] consider
      (old) "owner s ws = Some c"
      | (new) "e = Accept ws" "c = \<lparr>connection = ws, ch = ?n, close = Suc ?n\<rparr>"
      by blast
    then show ?thesis
    proof cases
      case old
      from bound[OF this] al show ?thesis
        by (cases "\<exists>ws. e = Accept ws") auto
    next
      case new
      with al show ?thesis by auto
    qed
  qed
  have 2: "ws = ws'"
    if a: "owner s' ws = Some c" and b: "owner s' ws' = Some c'" and e: "ch c = ch c'"
    for ws ws' c c'
  proof -
    from owner_new[OF x st a] consider
      (old) "owner s ws = Some c"
      | (new) "e = Accept ws" "ch c = ?n"
      by auto
    then show ?thesis
    proof cases
      case old
      from owner_new[OF x st b] consider
        (old') "owner s ws' = Some c'"
        | (new') "e = Accept ws'" "ch c' = ?n"
        by auto
      then show ?thesis
      proof cases
        case old'
        from inj[OF old old' e] show ?thesis .
      next
        case new'
        with bound[OF old] e show ?thesis by simp
      qed
    next
      case new
      from owner_new[OF x st b] consider
        (old') "owner s ws' = Some c'"
        | (new') "e = Accept ws'"
        by auto
      then show ?thesis
      proof cases
        case old'
        with bound[OF old'] new e show ?thesis by simp
      next
        case new'
        with new show ?thesis by simp
      qed
    qed
  qed
  have 3: "\<forall>k. length (chan_buf (shared s') k) \<le> chan_cap (shared s') k"
    using chan_step[OF st] o unfolding owners_inv_def by blast
  from 1 2 3 show ?thesis
    unfolding owners_inv_def by blast
qed

lemma appended_step:
  assumes x: "excl_inv s" and st: "step s e = Some s'" and a: "appended s c"
  shows "appended s' c"
proof -
  from a consider
    (sess) ws p where "sessions s ws = Some p" "client p = c"
    | (conn) ws pc where "connecting s ws = Some (c, pc)" "past_append pc"
    unfolding appended_def by blast
  then show ?thesis
  proof cases
    case sess
    from session_step[OF x sess(1) st] sess(2) show ?thesis
      unfolding appended_def by blast
  next
    case conn
    have "(\<exists>pc'. connecting s' ws = Some (c, pc') \<and> past_append pc') \<or>
          (\<exists>p'. sessions s' ws = Some p' \<and> client p' = c)"
      using st conn x unfolding excl_inv_def
      by (cases e)
         (auto simp: step.simps set_session_def set_connecting_def Let_def split: step_splits)
    then show ?thesis
      unfolding appended_def by blast
  qed
qed

lemma listed_step:
  "excl_inv s \<Longrightarrow> step s e = Some s' \<Longrightarrow> listed s l \<Longrightarrow> listed s' l"
  unfolding listed_def using appended_step by blast

lemma pending_append:
  "step s e = Some s' \<Longrightarrow> connecting s' ws = Some (c, H_Append l) \<Longrightarrow>
     connecting s ws = Some (c, H_Append l) \<or> l = clients (shared s)"
  by (cases e)
     (auto simp: step.simps set_session_def set_connecting_def Let_def split: step_splits)

lemma pending_assign:
  "step s e = Some s' \<Longrightarrow> connecting s' ws = Some (c, H_Assign l) \<Longrightarrow>
     connecting s ws = Some (c, H_Assign l) \<or> l = clients (shared s)"
  by (cases e)
     (auto simp: step.simps set_session_def set_connecting_def Let_def split: step_splits)

lemma clients_step:
  "step s e = Some s' \<Longrightarrow>
     clients (shared s') = clients (shared s) \<or>
     (\<exists>ws c l. e = Connect_append ws \<and> connecting s ws = Some (c, H_Append l) \<and>
        clients (shared s') = l @ [c] \<and> connecting s' ws = Some (c, H_Greet)) \<or>
     (\<exists>ws c l. e = Connect_assign ws \<and> connecting s ws = Some (c, H_Assign l) \<and>
        clients (shared s') = l)"
  by (cases e)
     (auto simp: step.simps set_session_def set_connecting_def Let_def NewClient_effect
                 JSON_Send_def print_line_def chan_put_def
           split: step_splits)


lemma registry_inv_step:
  assumes x: "excl_inv s" and o: "owners_inv s" and r: "registry_inv s"
    and st: "step s e = Some s'"
  shows "registry_inv s'"
proof -
  have reg: "listed s (clients (shared s))"
    using r unfolding registry_inv_def by blast
  have app: "listed s l" if "connecting s ws = Some (c, H_Append l)" for ws c l
    using r that unfolding registry_inv_def by blast
  have asg: "listed s l" if "connecting s ws = Some (c, H_Assign l)" for ws c l
    using r that unfolding registry_inv_def by blast
  note keep = listed_step[OF x st]
  have 1: "listed s' (clients (shared s'))"
  proof -
    from clients_step[OF st] consider
      (same) "clients (shared s') = clients (shared s)"
      | (append) ws c l where "connecting s ws = Some (c, H_Append l)"
          "clients (shared s') = l @ [c]" "connecting s' ws = Some (c, H_Greet)"
      | (assign) ws c l where "connecting s ws = Some (c, H_Assign l)"
          "clients (shared s') = l"
      by blast
    then show ?thesis
    proof cases
      case same
      with keep[OF reg] show ?thesis by simp
    next
      case append
      have l: "listed s l" using app[OF append(1)] .
      have none: "sessions s ws = None"
        using x append(1) unfolding excl_inv_def by (cases "sessions s ws") auto
      then have own: "owner s ws = Some c"
        using append(1) by (simp add: owner_def)
      have "\<forall>y\<in>set l. ch y \<noteq> ch c"
      proof (intro ballI notI)
        fix y
        assume y: "y \<in> set l" and e: "ch y = ch c"
        from l y have "appended s y" unfolding listed_def by blast
        then obtain ws' where w: "(\<exists>p. sessions s ws' = Some p \<and> client p = y) \<or>
            (\<exists>pc. connecting s ws' = Some (y, pc) \<and> past_append pc)"
          unfolding appended_def by blast
        then have own': "owner s ws' = Some y"
        proof
          assume "\<exists>p. sessions s ws' = Some p \<and> client p = y"
          then show ?thesis by (auto simp: owner_def)
        next
          assume c: "\<exists>pc. connecting s ws' = Some (y, pc) \<and> past_append pc"
          then have "sessions s ws' = None"
            using x unfolding excl_inv_def by (cases "sessions s ws'") auto
          with c show ?thesis by (auto simp: owner_def)
        qed
        have "ws' = ws"
          using o own' own e unfolding owners_inv_def by blast
        with w none append(1) show False by auto
      qed
      then have "ch c \<notin> ch ` set l" by auto
      moreover have "appended s' c"
        using append(3) unfolding appended_def by (intro exI[of _ ws]) simp
      ultimately show ?thesis
        using keep[OF l] append(2) unfolding listed_def by auto
    next
      case assign
      from keep[OF asg[OF assign(1)]] assign(2) show ?thesis by simp
    qed
  qed
  have 2: "listed s' l" if "connecting s' ws = Some (c, H_Append l)" for ws c l
    using pending_append[OF st that] keep[OF reg] keep[OF app] by auto
  have 3: "listed s' l" if "connecting s' ws = Some (c, H_Assign l)" for ws c l
    using pending_assign[OF st that] keep[OF reg] keep[OF asg] by auto
  from 1 2 3 show ?thesis
    unfolding registry_inv_def by blast
qed

lemma greeted_inv_step:
  assumes "greeted_inv s" and st: "step s e = Some s'"
  shows "greeted_inv s'"
proof -
  have a: "greeted_at s k" for k
    using assms(1) by (simp add: greeted_inv_def)
  have quiet: "greeted_at t ws"
    if "sessions t = sessions s" "connecting t = connecting s"
       "wire (shared t) = wire (shared s)"
    for t ws
    using a[of ws] that unfolding greeted_at_def by (auto split: option.splits prod.splits)
  have same: "greeted_at t ws"
    if "sessions s x = Some p" "sessions t = (sessions s)(x \<mapsto> p')" "client p' = client p"
       "connecting t = connecting s" "wire (shared t) = wire (shared s)"
    for t ws x p p'
    using a[of ws] a[of x] that unfolding greeted_at_def
    by (cases "ws = x") (auto split: option.splits prod.splits)
  have conn: "greeted_at t ws"
    if "connecting s x = Some (c, pc)" "connecting t = (connecting s)(x \<mapsto> (c, pc'))"
       "greeted pc' = greeted pc" "sessions t = sessions s"
       "wire (shared t) = wire (shared s)"
    for t ws x c pc pc'
    using a[of ws] a[of x] that unfolding greeted_at_def
    by (cases "ws = x") (auto split: option.splits prod.splits)
  have "greeted_at s' ws" for ws
  proof (cases e)
    case (Accept x)
    with st have "step s (Accept x) = Some s'" by simp
    then show ?thesis
    proof (rule step_Accept)
      assume n: "sessions s x = None" "connecting s x = None"
        and s': "s' = set_connecting x (fst (NewClient x (shared s)), H_Arg)
            (s\<lparr>shared := snd (NewClient x (shared s))\<rparr>)"
      show ?thesis
        using a[of ws] a[of x] n unfolding greeted_at_def s'
        by (cases "ws = x")
           (auto simp: set_connecting_def NewClient_effect split: option.splits prod.splits)
    qed
  next
    case (Connect_arg x)
    with st show ?thesis
      by (auto elim!: step_Connect_arg intro!: conn simp: set_connecting_def)
  next
    case (Connect_append x)
    with st show ?thesis
      by (auto elim!: step_Connect_append intro!: conn simp: set_connecting_def)
  next
    case (Connect_greet x)
    with st have "step s (Connect_greet x) = Some s'" by simp
    then show ?thesis
    proof (rule step_Connect_greet)
      fix c
      assume c: "connecting s x = Some (c, H_Greet)"
        and s': "s' = set_connecting x (c, H_Result)
            (s\<lparr>shared := JSON_Send (connection c) greeting (shared s)\<rparr>)"
      show ?thesis
        using a[of ws] a[of x] c unfolding greeted_at_def s'
        by (cases "ws = x")
           (auto simp: set_connecting_def JSON_Send_fields split: option.splits prod.splits)
    qed
  next
    case (Connect_result x)
    with st show ?thesis
      by (auto elim!: step_Connect_result intro!: conn simp: set_connecting_def)
  next
    case (Connect_assign x)
    with st show ?thesis
      by (auto elim!: step_Connect_assign intro!: conn simp: set_connecting_def)
  next
    case (Listen x)
    with st have "step s (Listen x) = Some s'" by simp
    then show ?thesis
    proof (rule step_Listen)
      fix c
      assume c: "connecting s x = Some (c, H_Start)"
        and s': "s' = set_session x
            \<lparr>client = c, rd = R_Select, wr = W_Select, handler = H_Listen\<rparr>
            (s\<lparr>shared := print_line Log_Listening (shared s),
               connecting := (connecting s)(x := None)\<rparr>)"
      show ?thesis
        using a[of ws] a[of x] c unfolding greeted_at_def s'
        by (cases "ws = x")
           (auto simp: set_session_def print_line_fields split: option.splits prod.splits)
    qed
  next
    case (Read_default x)
    with st show ?thesis
      by (auto elim!: step_Read_default intro!: same simp: set_session_def)
  next
    case (Read_receive x r)
    with st show ?thesis
      by (cases r)
         (auto elim!: step_Read_receive intro!: same simp: set_session_def print_line_fields)
  next
    case (Read_send x)
    with st show ?thesis
      by (auto elim!: step_Read_send intro!: same simp: set_session_def chan_put_fields)
  next
    case (Write_msg x)
    with st have "step s (Write_msg x) = Some s'" by simp
    then show ?thesis
    proof (rule step_Write_msg)
      fix p m ms
      assume p: "sessions s x = Some p"
        and s': "s' = s\<lparr>shared := JSON_Send (connection (client p)) m
             (print_line (Log_Send m)
               ((shared s)\<lparr>chan_buf := (chan_buf (shared s))(ch (client p) := ms)\<rparr>))\<rparr>"
      show ?thesis
        using a[of ws] a[of x] p unfolding greeted_at_def s'
        by (cases "ws = x")
           (auto simp: JSON_Send_fields print_line_fields split: option.splits prod.splits)
    qed
  next
    case (Write_park x)
    with st show ?thesis
      by (auto elim!: step_Write_park intro!: same simp: set_session_def)
  next
    case (Sync_eof x)
    with st show ?thesis
      by (auto elim!: step_Sync_eof intro!: same simp: set_session_def)
  next
    case (Sync_ack x)
    with st show ?thesis
      by (auto elim!: step_Sync_ack intro!: same simp: set_session_def)
  next
    case (Sync_back x)
    with st show ?thesis
      by (auto elim!: step_Sync_back intro!: same simp: set_session_def)
  next
    case (Return x)
    with st show ?thesis
      by (auto elim!: step_Return intro!: same simp: set_session_def)
  next
    case (Request i path)
    with st show ?thesis
      by (auto elim!: step_Request intro!: quiet simp: print_line_fields)
  next
    case (Request_send i)
    with st show ?thesis
      by (auto elim!: step_Request_send intro!: quiet simp: chan_put_fields)
  qed
  then show ?thesis by (simp add: greeted_inv_def)
qed

lemma system_inv_system0: "system_inv system0"
  by (simp add: system_inv_def handshake_inv_def excl_inv_def greeted_inv_def greeted_at_def
        owners_inv_def owner_def registry_inv_def listed_def system0_def world0_def)

lemma system_inv_step:
  assumes "system_inv s" and "step s e = Some s'"
  shows "system_inv s'"
proof -
  from assms(1) have h: "handshake_inv s" and x: "excl_inv s" and g: "greeted_inv s"
    and o: "owners_inv s" and r: "registry_inv s" and c: "\<forall>ws. closed (shared s) ws = 0"
    by (simp_all add: system_inv_def)
  show ?thesis
    unfolding system_inv_def
    using handshake_inv_step[OF h assms(2)] excl_inv_step[OF x assms(2)]
      greeted_inv_step[OF g assms(2)] owners_inv_step[OF x o assms(2)]
      registry_inv_step[OF x o r assms(2)] closed_step[OF h assms(2)] c
    by simp
qed

lemma system_inv_run: "system_inv s \<Longrightarrow> run s es = Some s' \<Longrightarrow> system_inv s'"
  by (induction es arbitrary: s) (auto split: option.splits dest: system_inv_step)

subsection \<open>Runs of the sessions\<close>

lemmas run_simps =
  system0_def world0_def connect_def step.simps set_session_def set_connecting_def
  NewClient_effect print_line_def JSON_Send_def chan_put_def chan_full_def greeting_def

lemma parked_run:
  "system_inv s \<Longrightarrow> parked s ws \<Longrightarrow> run s es = Some s' \<Longrightarrow> parked s' ws"
proof (induction es arbitrary: s)
  case Nil
  then show ?case by simp
next
  case (Cons e es)
  then obtain s1 where s1: "step s e = Some s1" "run s1 es = Some s'"
    by (auto split: option.splits)
  have "excl_inv s" using Cons.prems(1) by (simp add: system_inv_def)
  from parked_step[OF this Cons.prems(2) s1(1)] system_inv_step[OF Cons.prems(1) s1(1)]
  show ?case using Cons.IH s1(2) by blast
qed

lemma run_append:
  "run s (es @ es') = (case run s es of None \<Rightarrow> None | Some s1 \<Rightarrow> run s1 es')"
  by (induction es arbitrary: s) (auto split: option.splits)



subsection \<open>The concrete runs\<close>

lemma run_clean_disconnect:
  "\<exists>s p. run system0 clean_disconnect = Some s \<and> sessions s 0 = Some p \<and>
     rd p = R_SendBack \<and> wr p = W_Returned \<and>
     client p = \<lparr>connection = 0, ch = 0, close = 1\<rparr> \<and>
     clients (shared s) = [\<lparr>connection = 0, ch = 0, close = 1\<rparr>]"
  by (simp add: clean_disconnect_def run_simps)

lemma run_clean_disconnect_twice:
  "\<exists>s p. run system0 clean_disconnect_twice = Some s \<and> sessions s 0 = Some p \<and>
     rd p = R_SendEOF \<and> wr p = W_SendAck \<and>
     step s (Sync_eof 0) = None \<and> step s (Sync_ack 0) = None \<and> step s (Sync_back 0) = None \<and>
     step s (Read_default 0) = None \<and> step s (Write_park 0) = None \<and>
     step s (Write_msg 0) = None \<and> step s (Read_send 0) = None \<and> step s (Return 0) = None"
  by (simp add: clean_disconnect_twice_def run_simps)


lemma run_listening:
  "\<exists>s p. run system0 (connect 0 @ [Read_default 0]) = Some s \<and> sessions s 0 = Some p \<and>
     rd p = R_Receive \<and> wr p = W_Select \<and> stdout (shared s) = [Log_Listening] \<and>
     chan_buf (shared s) 0 = []"
  by (simp add: run_simps)



lemma run_overlapping:
  "\<exists>s p q. run system0 overlapping_connects = Some s \<and>
     sessions s 0 = Some p \<and> client p = \<lparr>connection = 0, ch = 0, close = 1\<rparr> \<and>
     rd p = R_Select \<and> wr p = W_Select \<and>
     sessions s 1 = Some q \<and> client q = \<lparr>connection = 1, ch = 2, close = 3\<rparr> \<and>
     wire (shared s) 0 = [greeting] \<and> wire (shared s) 1 = [greeting] \<and>
     clients (shared s) = [\<lparr>connection = 1, ch = 2, close = 3\<rparr>] \<and>
     chan_buf (shared s) 0 = [] \<and> chan_buf (shared s) 2 = [] \<and>
     chan_cap (shared s) 0 = 100 \<and> chan_cap (shared s) 2 = 100"
  by (simp add: overlapping_connects_def run_simps)

lemma run_error_after_eof:
  "\<exists>s p. run system0 error_after_eof = Some s \<and> sessions s 0 = Some p \<and>
     rd p = R_Select \<and> wr p = W_SendAck"
  by (simp add: error_after_eof_def run_simps)

subsection \<open>The broadcast as a whole\<close>

lemma count_list_distinct: "distinct xs \<Longrightarrow> x \<in> set xs \<Longrightarrow> count_list xs x = 1"
  by (induction xs) auto

lemma broadcast_fields:
  assumes "broadcast m w = Done w' \<or> broadcast m w = Blocked rest w'"
  shows "clients w' = clients w \<and> wire w' = wire w \<and> closed w' = closed w \<and>
         stdout w' = stdout w @ [Printf_Broadcasting m] \<and> chan_cap w' = chan_cap w"
  using deliver_frame[OF assms[unfolded broadcast_def]]
  by (simp add: print_line_fields)

lemma broadcast_room:
  assumes "distinct (map ch (clients w))"
    and "\<forall>x\<in>set (clients w). \<not> chan_full w (ch x)"
  shows "\<exists>w'. broadcast m w = Done w' \<and>
           (\<forall>x\<in>set (clients w). chan_buf w' (ch x) = chan_buf w (ch x) @ [m]) \<and>
           (\<forall>k. k \<notin> ch ` set (clients w) \<longrightarrow> chan_buf w' k = chan_buf w k)"
proof -
  let ?w1 = "print_line (Printf_Broadcasting m) w"
  have "\<forall>x\<in>set (clients w). \<not> chan_full ?w1 (ch x)"
    using assms(2) by (simp add: chan_full_def print_line_fields)
  from deliver_room[OF assms(1) this] obtain w' where
    w': "deliver m (clients w) ?w1 = Done w'"
    by blast
  have b: "chan_buf w' k = chan_buf w k @ replicate (count_list (map ch (clients w)) k) m" for k
    using deliver_Done_buf[OF w', of k] by (simp add: print_line_fields)
  have "\<forall>x\<in>set (clients w). chan_buf w' (ch x) = chan_buf w (ch x) @ [m]"
    using b assms(1) by (simp add: count_list_distinct)
  moreover have "\<forall>k. k \<notin> ch ` set (clients w) \<longrightarrow> chan_buf w' k = chan_buf w k"
    using b by simp
  ultimately show ?thesis
    using w' by (simp add: broadcast_def)
qed

lemma broadcast_blocked:
  assumes "clients w = pre @ c # post" and "distinct (map ch (clients w))"
    and "\<forall>x\<in>set pre. \<not> chan_full w (ch x)" and "chan_full w (ch c)"
  shows "\<exists>w'. broadcast m w = Blocked (c # post) w' \<and>
           (\<forall>x\<in>set pre. chan_buf w' (ch x) = chan_buf w (ch x) @ [m]) \<and>
           (\<forall>x\<in>set (c # post). chan_buf w' (ch x) = chan_buf w (ch x))"
proof -
  let ?w1 = "print_line (Printf_Broadcasting m) w"
  have d: "distinct (map ch (pre @ c # post))"
    using assms(1,2) by simp
  have r: "\<forall>x\<in>set pre. \<not> chan_full ?w1 (ch x)"
    using assms(3) by (simp add: chan_full_def print_line_fields)
  have f: "chan_full ?w1 (ch c)"
    using assms(4) by (simp add: chan_full_def print_line_fields)
  from deliver_blocked[OF d r f, of m] obtain w' where
    w': "deliver m (pre @ c # post) ?w1 = Blocked (c # post) w'"
      "\<forall>x\<in>set pre. chan_buf w' (ch x) = chan_buf ?w1 (ch x) @ [m]"
      "\<forall>k. k \<notin> ch ` set pre \<longrightarrow> chan_buf w' k = chan_buf ?w1 k"
    by blast
  have "\<forall>x\<in>set (c # post). ch x \<notin> ch ` set pre"
    using d by auto
  then have "\<forall>x\<in>set (c # post). chan_buf w' (ch x) = chan_buf w (ch x)"
    using w'(3) by (simp add: print_line_fields)
  then show ?thesis
    using w'(1,2) assms(1) by (simp add: broadcast_def print_line_fields)
qed


lemma deliver_Blocked_length:
  "deliver m cs w = Blocked rest w' \<Longrightarrow> length rest \<le> length cs \<and> rest \<noteq> [] \<and>
     chan_full w' (ch (hd rest))"
proof (induction cs arbitrary: w)
  case Nil
  then show ?case by simp
next
  case (Cons a cs)
  show ?case
  proof (cases "chan_full w (ch a)")
    case True
    with Cons.prems show ?thesis by auto
  next
    case False
    with Cons.prems have "deliver m cs (chan_put (ch a) m w) = Blocked rest w'"
      by simp
    from Cons.IH[OF this] show ?thesis by simp
  qed
qed

lemma broadcastHandler_routed:
  "broadcastHandler (''/broadcast/'' @ rest) w =
     (case broadcast \<lparr>Author = ''Server'', Body = takeWhile (\<lambda>c. c \<noteq> CHR ''/'') rest\<rparr> w of
        Done w' \<Rightarrow> Replied (''Broadcasting '' @ takeWhile (\<lambda>c. c \<noteq> CHR ''/'') rest) w'
      | Blocked cs w' \<Rightarrow> Waiting (takeWhile (\<lambda>c. c \<noteq> CHR ''/'') rest) cs w')"
  unfolding broadcastHandler_def readMsg_routed
  by (simp add: confirmation_def split: outcome.splits)

lemma readMsg_unrouted: "readMsgFromRequest ''/broadcast'' = Inl IndexOutOfRange"
  by (simp add: readMsgFromRequest_def)

lemma full_world_facts:
  "clients full_world = [slow_client, other_client]"
  "chan_cap full_world 0 = 100" "chan_cap full_world 2 = 100"
  "chan_buf full_world 0 = replicate 100 hi" "chan_buf full_world 2 = []"
  by (simp_all add: full_world_def Let_def onWsConnect_enter_effect world0_def
        slow_client_def other_client_def)

subsection \<open>The broadcast, one send at a time\<close>




section \<open>Claims about the trigger endpoint\<close>



text \<open>
  C6 (as the code has it).  For every path \<^verbatim>\<open>/broadcast/<rest>\<close> the handler
  takes as body the part of \<open>rest\<close> before its first slash (all of it when there is
  none) and calls \<^verbatim>\<open>broadcast\<close> with the message of author \<^verbatim>\<open>Server\<close>
  and that body.  When \<^verbatim>\<open>broadcast\<close> returns, the reply is
  \<^verbatim>\<open>Broadcasting <body>\<close>, every channel has received the message once per
  registry entry that names it, and registry, connections and close counts are as
  before: no session takes part.  When \<^verbatim>\<open>broadcast\<close> waits at a full queue,
  the handler waits with it and nothing has been written back.
\<close>

theorem broadcastHandler_broadcasts_segment:
  assumes "body = takeWhile (\<lambda>c. c \<noteq> CHR ''/'') rest"
  shows "(CHR ''/'' \<notin> set rest \<longrightarrow> body = rest) \<and>
     (\<forall>w'. broadcast \<lparr>Author = ''Server'', Body = body\<rparr> w = Done w' \<longrightarrow>
        broadcastHandler (''/broadcast/'' @ rest) w = Replied (''Broadcasting '' @ body) w' \<and>
        clients w' = clients w \<and> wire w' = wire w \<and> closed w' = closed w \<and>
        (\<forall>k. chan_buf w' k =
           chan_buf w k @
           replicate (count_list (map ch (clients w)) k) \<lparr>Author = ''Server'', Body = body\<rparr>)) \<and>
     (\<forall>cs w'. broadcast \<lparr>Author = ''Server'', Body = body\<rparr> w = Blocked cs w' \<longrightarrow>
        broadcastHandler (''/broadcast/'' @ rest) w = Waiting body cs w' \<and>
        cs \<noteq> [] \<and> chan_full w' (ch (hd cs)) \<and>
        clients w' = clients w \<and> wire w' = wire w \<and> closed w' = closed w) \<and>
     (distinct (map ch (clients w)) \<and> (\<forall>x\<in>set (clients w). \<not> chan_full w (ch x)) \<longrightarrow>
        (\<exists>w'. broadcastHandler (''/broadcast/'' @ rest) w =
                 Replied (''Broadcasting '' @ body) w' \<and>
           (\<forall>x\<in>set (clients w).
              chan_buf w' (ch x) = chan_buf w (ch x) @ [\<lparr>Author = ''Server'', Body = body\<rparr>])))"
proof -
  let ?M = "\<lparr>Author = ''Server'', Body = body\<rparr>"
  have h: "broadcastHandler (''/broadcast/'' @ rest) w =
     (case broadcast ?M w of
        Done w' \<Rightarrow> Replied (''Broadcasting '' @ body) w'
      | Blocked cs w' \<Rightarrow> Waiting body cs w')"
    using broadcastHandler_routed[of rest w] unfolding assms .
  have 1: "CHR ''/'' \<notin> set rest \<longrightarrow> body = rest"
    unfolding assms by (auto simp: takeWhile_eq_all_conv)
  have 2: "broadcastHandler (''/broadcast/'' @ rest) w = Replied (''Broadcasting '' @ body) w' \<and>
        clients w' = clients w \<and> wire w' = wire w \<and> closed w' = closed w \<and>
        (\<forall>k. chan_buf w' k =
           chan_buf w k @ replicate (count_list (map ch (clients w)) k) ?M)"
    if d: "broadcast ?M w = Done w'" for w'
  proof -
    from d have dl: "deliver ?M (clients w) (print_line (Printf_Broadcasting ?M) w) = Done w'"
      by (simp add: broadcast_def)
    have "\<forall>k. chan_buf w' k =
           chan_buf w k @ replicate (count_list (map ch (clients w)) k) ?M"
      using deliver_Done_buf[OF dl] by (simp add: print_line_fields)
    then show ?thesis
      using h d broadcast_fields[of ?M w w'] by simp
  qed
  have 3: "broadcastHandler (''/broadcast/'' @ rest) w = Waiting body cs w' \<and>
        cs \<noteq> [] \<and> chan_full w' (ch (hd cs)) \<and>
        clients w' = clients w \<and> wire w' = wire w \<and> closed w' = closed w"
    if b: "broadcast ?M w = Blocked cs w'" for cs w'
  proof -
    from b have dl: "deliver ?M (clients w) (print_line (Printf_Broadcasting ?M) w) = Blocked cs w'"
      by (simp add: broadcast_def)
    from deliver_Blocked_length[OF dl] show ?thesis
      using h b broadcast_fields[of ?M w w' cs] by simp
  qed
  have 4: "\<exists>w'. broadcastHandler (''/broadcast/'' @ rest) w =
                 Replied (''Broadcasting '' @ body) w' \<and>
           (\<forall>x\<in>set (clients w). chan_buf w' (ch x) = chan_buf w (ch x) @ [?M])"
    if "distinct (map ch (clients w)) \<and> (\<forall>x\<in>set (clients w). \<not> chan_full w (ch x))"
  proof -
    from that broadcast_room[of w ?M] obtain w' where
      "broadcast ?M w = Done w'"
      "\<forall>x\<in>set (clients w). chan_buf w' (ch x) = chan_buf w (ch x) @ [?M]"
      by blast
    with h show ?thesis by simp
  qed
  from 1 2 3 4 show ?thesis by blast
qed

theorem broadcastHandler_broadcasts_segment_witness:
  "''ping'' = takeWhile (\<lambda>c. c \<noteq> CHR ''/'') ''ping'' \<and>
   (\<exists>w'. broadcastHandler ''/broadcast/ping'' (snd (onWsConnect_enter 0 world0)) =
            Replied ''Broadcasting ping'' w' \<and>
          chan_buf w' 0 = [\<lparr>Author = ''Server'', Body = ''ping''\<rparr>])"
proof -
  let ?w = "snd (onWsConnect_enter 0 world0)"
  have t: "''ping'' = takeWhile (\<lambda>c. c \<noteq> CHR ''/'') ''ping''" by simp
  have c: "clients ?w = [\<lparr>connection = 0, ch = 0, close = 1\<rparr>]"
    and b: "chan_buf ?w 0 = []" and k: "chan_cap ?w 0 = 100"
    by (simp_all add: onWsConnect_enter_effect world0_def)
  have "distinct (map ch (clients ?w)) \<and> (\<forall>x\<in>set (clients ?w). \<not> chan_full ?w (ch x))"
    using c b k by (simp add: chan_full_def)
  with broadcastHandler_broadcasts_segment[OF t, of ?w]
  obtain w' where "broadcastHandler (''/broadcast/'' @ ''ping'') ?w =
                     Replied (''Broadcasting '' @ ''ping'') w'"
    "\<forall>x\<in>set (clients ?w).
        chan_buf w' (ch x) = chan_buf ?w (ch x) @ [\<lparr>Author = ''Server'', Body = ''ping''\<rparr>]"
    by blast
  then show ?thesis
    using c b by simp
qed

text \<open>
  C6 as stated fails twice: the text \<^verbatim>\<open>a/b\<close> is confirmed and broadcast as
  \<^verbatim>\<open>a\<close>, and with a full queue in the registry the request for
  \<^verbatim>\<open>/broadcast/x\<close> is left waiting, without a reply.
\<close>

theorem slash_and_full_queue_counterexample:
  "readMsgFromRequest ''/broadcast/a/b'' = Inr ''a'' \<and>
   broadcastHandler ''/broadcast/a/b'' (snd (onWsConnect_enter 0 world0)) =
     Replied ''Broadcasting a''
       (chan_put 0 \<lparr>Author = ''Server'', Body = ''a''\<rparr>
         (print_line (Printf_Broadcasting \<lparr>Author = ''Server'', Body = ''a''\<rparr>)
           (snd (onWsConnect_enter 0 world0)))) \<and>
   broadcastHandler ''/broadcast/x'' full_world =
     Waiting ''x'' [slow_client, other_client]
       (print_line (Printf_Broadcasting \<lparr>Author = ''Server'', Body = ''x''\<rparr>) full_world)"
proof -
  have 1: "readMsgFromRequest ''/broadcast/a/b'' = Inr ''a''"
    using readMsg_routed[of "''a/b''"] by simp
  have 2: "broadcastHandler ''/broadcast/a/b'' (snd (onWsConnect_enter 0 world0)) =
     Replied ''Broadcasting a''
       (chan_put 0 \<lparr>Author = ''Server'', Body = ''a''\<rparr>
         (print_line (Printf_Broadcasting \<lparr>Author = ''Server'', Body = ''a''\<rparr>)
           (snd (onWsConnect_enter 0 world0))))"
    using broadcastHandler_routed[of "''a/b''" "snd (onWsConnect_enter 0 world0)"]
    by (simp add: broadcast_def onWsConnect_enter_effect world0_def chan_full_def print_line_def)
  have 3: "broadcastHandler ''/broadcast/x'' full_world =
     Waiting ''x'' [slow_client, other_client]
       (print_line (Printf_Broadcasting \<lparr>Author = ''Server'', Body = ''x''\<rparr>) full_world)"
    using broadcastHandler_routed[of "''x''" full_world]
    by (simp add: broadcast_def full_world_facts slow_client_def other_client_def
          chan_full_def print_line_fields)
  from 1 2 3 show ?thesis by blast
qed

text \<open>
  C7 (as the code has it).  The handler is registered for the paths that begin with
  \<^verbatim>\<open>/broadcast/\<close>.  On every such path the extraction stays in bounds and gives
  the text up to the next slash; the handler has no error reply: it broadcasts that
  text, the empty one included, and replies with the confirmation.
\<close>

theorem readMsgFromRequest_routed_in_bounds:
  "readMsgFromRequest (''/broadcast/'' @ rest) = Inr (takeWhile (\<lambda>c. c \<noteq> CHR ''/'') rest) \<and>
   broadcastHandler (''/broadcast/'' @ rest) w =
     (case broadcast \<lparr>Author = ''Server'', Body = takeWhile (\<lambda>c. c \<noteq> CHR ''/'') rest\<rparr> w of
        Done w' \<Rightarrow> Replied (''Broadcasting '' @ takeWhile (\<lambda>c. c \<noteq> CHR ''/'') rest) w'
      | Blocked cs w' \<Rightarrow> Waiting (takeWhile (\<lambda>c. c \<noteq> CHR ''/'') rest) cs w')"
  using readMsg_routed[of rest] broadcastHandler_routed[of rest w] by simp

text \<open>
  C7 as stated fails: on \<^verbatim>\<open>/broadcast/\<close>, where the segment is missing, the
  handler sends the empty message to the connected client and replies
  \<^verbatim>\<open>Broadcasting \<close> as for any other request.
\<close>

theorem missing_segment_is_broadcast_counterexample:
  "broadcastHandler ''/broadcast/'' (snd (onWsConnect_enter 0 world0)) =
     Replied ''Broadcasting ''
       (chan_put 0 \<lparr>Author = ''Server'', Body = []\<rparr>
         (print_line (Printf_Broadcasting \<lparr>Author = ''Server'', Body = []\<rparr>)
           (snd (onWsConnect_enter 0 world0))))"
  using broadcastHandler_routed[of "[]" "snd (onWsConnect_enter 0 world0)"]
  by (simp add: broadcast_def onWsConnect_enter_effect world0_def chan_full_def print_line_def)

section \<open>Claims about the two loops of a session\<close>

text \<open>
  C3.  The claim: after a clean end-of-stream both loops stop and \<^verbatim>\<open>listen()\<close>
  returns.  The code: in no reachable state has \<^verbatim>\<open>listenToRead\<close> returned, so
  \<^verbatim>\<open>listen()\<close> and \<^verbatim>\<open>onWsConnect\<close> never return and the deferred
  \<^verbatim>\<open>ws.Close()\<close> never runs.  Once the read loop has taken the write loop's
  acknowledgement it stands at the send of line 53 with the write loop gone, and
  stays there in every continuation.
\<close>

theorem listenToRead_never_returns:
  assumes "run system0 es = Some s" and "sessions s ws = Some p"
  shows "rd p \<noteq> R_Returned \<and> handler p = H_Listen \<and> closed (shared s) ws = 0 \<and>
         (rd p = R_SendBack \<longrightarrow> wr p = W_Returned \<and>
            (\<forall>es' s'. run s es' = Some s' \<longrightarrow> parked s' ws))"
proof -
  have i: "system_inv s"
    using system_inv_run[OF system_inv_system0 assms(1)] .
  then have h: "handshake_inv s" and c: "closed (shared s) ws = 0"
    by (simp_all add: system_inv_def)
  from h assms(2) have 1: "rd p \<noteq> R_Returned" "handler p = H_Listen"
    "rd p = R_SendBack \<longrightarrow> wr p = W_Returned"
    by (auto simp: handshake_inv_def)
  have "parked s' ws" if "rd p = R_SendBack" "run s es' = Some s'" for es' s'
  proof -
    have "parked s ws" using that(1) 1(3) assms(2) by (simp add: parked_def)
    from parked_run[OF i this that(2)] show ?thesis .
  qed
  with 1 c show ?thesis by blast
qed

theorem listenToRead_never_returns_witness:
  "\<exists>s p. run system0 clean_disconnect = Some s \<and> sessions s 0 = Some p \<and>
         rd p = R_SendBack \<and> wr p = W_Returned \<and> rd p \<noteq> R_Returned \<and>
         handler p = H_Listen \<and> closed (shared s) 0 = 0 \<and> parked s 0"
proof -
  from run_clean_disconnect obtain s p where
    s: "run system0 clean_disconnect = Some s"
    and p: "sessions s 0 = Some p" "rd p = R_SendBack" "wr p = W_Returned"
    by blast
  from listenToRead_never_returns[OF s p(1)] p(2)
  have "rd p \<noteq> R_Returned" "handler p = H_Listen" "closed (shared s) 0 = 0"
    "\<forall>es' s'. run s es' = Some s' \<longrightarrow> parked s' 0"
    by simp_all
  moreover have "run s [] = Some s" by simp
  ultimately have "parked s 0" by blast
  with s p \<open>rd p \<noteq> R_Returned\<close> \<open>handler p = H_Listen\<close> \<open>closed (shared s) 0 = 0\<close>
  show ?thesis by blast
qed




text \<open>
  C8 (as the code has it).  When \<^verbatim>\<open>Receive\<close> fails with an error other than
  \<^verbatim>\<open>io.EOF\<close>, the read loop prints its \<^verbatim>\<open>Received:\<close> line, the one it
  prints for every receive, and goes back to its \<^verbatim>\<open>select\<close>; the state it
  reaches is the same for every error value, so nothing of the error is kept or
  printed.  The session and its write loop stay, no queue, connection or registry
  changes, nothing is broadcast.  The \<^verbatim>\<open>select\<close> then takes
  \<^verbatim>\<open>default\<close> and reads again if the write loop is not parked at line 39;
  if it is, the loop does not read again: it takes the termination signal and goes to
  line 53.
\<close>

theorem read_error_is_swallowed:
  assumes "sessions s ws = Some p" and "rd p = R_Receive"
  shows "\<exists>s'. (\<forall>e. step s (Read_receive ws (Failure e m)) = Some s') \<and>
     sessions s' = (sessions s)(ws \<mapsto> p\<lparr>rd := R_Select\<rparr>) \<and>
     connecting s' = connecting s \<and> requests s' = requests s \<and>
     stdout (shared s') = stdout (shared s) @ [Printf_Received m] \<and>
     clients (shared s') = clients (shared s) \<and> chan_buf (shared s') = chan_buf (shared s) \<and>
     wire (shared s') = wire (shared s) \<and> closed (shared s') = closed (shared s) \<and>
     (wr p \<noteq> W_SendAck \<longrightarrow>
        step s' (Read_default ws) = Some (set_session ws (p\<lparr>rd := R_Receive\<rparr>) s')) \<and>
     (wr p = W_SendAck \<longrightarrow>
        step s' (Read_default ws) = None \<and> step s' (Read_receive ws r) = None \<and>
        step s' (Sync_ack ws) =
          Some (set_session ws (p\<lparr>rd := R_SendBack, wr := W_Returned\<rparr>) s'))"
  using assms
  by (simp add: step.simps set_session_def print_line_def)

theorem read_error_is_swallowed_witness:
  "\<exists>s p s' s''. run system0 (connect 0 @ [Read_default 0]) = Some s \<and>
     sessions s 0 = Some p \<and> rd p = R_Receive \<and>
     step s (Read_receive 0 (Failure ''unexpected EOF'' zero_Message)) = Some s' \<and>
     stdout (shared s') = [Log_Listening, Printf_Received zero_Message] \<and>
     chan_buf (shared s') 0 = [] \<and>
     step s' (Read_default 0) = Some s'' \<and> map_option rd (sessions s'' 0) = Some R_Receive"
proof -
  from run_listening obtain s p where
    s: "run system0 (connect 0 @ [Read_default 0]) = Some s" "sessions s 0 = Some p"
      "rd p = R_Receive"
    and w: "wr p = W_Select" "stdout (shared s) = [Log_Listening]" "chan_buf (shared s) 0 = []"
    by blast
  from read_error_is_swallowed[OF s(2,3), of zero_Message] w(1)
  obtain s' where s': "\<forall>e. step s (Read_receive 0 (Failure e zero_Message)) = Some s'"
    "stdout (shared s') = stdout (shared s) @ [Printf_Received zero_Message]"
    "chan_buf (shared s') = chan_buf (shared s)"
    "step s' (Read_default 0) = Some (set_session 0 (p\<lparr>rd := R_Receive\<rparr>) s')"
    by auto
  let ?t = "set_session 0 (p\<lparr>rd := R_Receive\<rparr>) s'"
  have "map_option rd (sessions ?t 0) = Some R_Receive"
    by (simp add: set_session_def)
  with s s' w show ?thesis
    by auto
qed

text \<open>
  C8 as stated fails: two different errors leave the same state and the same output,
  in which only the \<^verbatim>\<open>Received:\<close> line appears; and an error that arrives
  when the write loop is already parked at line 39 is followed by no further read.
\<close>

theorem read_error_leaves_no_trace:
  "(case run system0 (connect 0 @ [Read_default 0]) of
      None \<Rightarrow> False
    | Some s \<Rightarrow>
        step s (Read_receive 0 (Failure ''unexpected EOF'' zero_Message)) =
          step s (Read_receive 0 (Failure ''invalid character'' zero_Message)) \<and>
        map_option (\<lambda>t. stdout (shared t))
          (step s (Read_receive 0 (Failure ''unexpected EOF'' zero_Message))) =
          Some [Log_Listening, Printf_Received zero_Message]) \<and>
   (case run system0 error_after_eof of
      None \<Rightarrow> False
    | Some s \<Rightarrow>
        map_option rd (sessions s 0) = Some R_Select \<and>
        map_option wr (sessions s 0) = Some W_SendAck \<and>
        step s (Read_default 0) = None \<and>
        step s (Read_receive 0 EOF) = None \<and>
        (case step s (Sync_ack 0) of None \<Rightarrow> False | Some t \<Rightarrow> parked t 0))"
  by (simp add: error_after_eof_def run_simps parked_def)

section \<open>Claims about the registry and the broadcast\<close>

text \<open>
  C1 (as the code has it).  \<^verbatim>\<open>broadcast\<close> sends with a plain channel send, in
  registry order.  When no registered queue is full, the message is appended to every
  one of them and the loop ends.  At the first client whose queue is full the loop
  waits: the clients before it have the message, that client and the ones after it do
  not, and the message is kept for them, not dropped.
\<close>

theorem broadcast_waits_at_full_queue:
  assumes "distinct (map ch (clients w))"
  shows "((\<forall>x\<in>set (clients w). \<not> chan_full w (ch x)) \<longrightarrow>
            (\<exists>w'. broadcast m w = Done w' \<and>
               (\<forall>x\<in>set (clients w). chan_buf w' (ch x) = chan_buf w (ch x) @ [m]))) \<and>
         (\<forall>pre c post.
            clients w = pre @ c # post \<and> (\<forall>x\<in>set pre. \<not> chan_full w (ch x)) \<and>
            chan_full w (ch c) \<longrightarrow>
            (\<exists>w'. broadcast m w = Blocked (c # post) w' \<and>
               (\<forall>x\<in>set pre. chan_buf w' (ch x) = chan_buf w (ch x) @ [m]) \<and>
               (\<forall>x\<in>set (c # post). chan_buf w' (ch x) = chan_buf w (ch x))))"
proof (intro conjI impI allI)
  assume "\<forall>x\<in>set (clients w). \<not> chan_full w (ch x)"
  from broadcast_room[OF assms this, of m]
  show "\<exists>w'. broadcast m w = Done w' \<and>
          (\<forall>x\<in>set (clients w). chan_buf w' (ch x) = chan_buf w (ch x) @ [m])"
    by blast
next
  fix pre c post
  assume a: "clients w = pre @ c # post \<and> (\<forall>x\<in>set pre. \<not> chan_full w (ch x)) \<and>
            chan_full w (ch c)"
  then have 1: "clients w = pre @ c # post" and 2: "\<forall>x\<in>set pre. \<not> chan_full w (ch x)"
    and 3: "chan_full w (ch c)"
    by simp_all
  show "\<exists>w'. broadcast m w = Blocked (c # post) w' \<and>
               (\<forall>x\<in>set pre. chan_buf w' (ch x) = chan_buf w (ch x) @ [m]) \<and>
               (\<forall>x\<in>set (c # post). chan_buf w' (ch x) = chan_buf w (ch x))"
    by (rule broadcast_blocked[OF 1 assms 2 3])
qed

theorem broadcast_waits_at_full_queue_witness:
  "distinct (map ch (clients full_world)) \<and>
   clients full_world = [] @ slow_client # [other_client] \<and>
   chan_full full_world (ch slow_client) \<and>
   (\<exists>w'. broadcast hi full_world = Blocked [slow_client, other_client] w' \<and>
      chan_buf w' (ch slow_client) = replicate 100 hi \<and>
      chan_buf w' (ch other_client) = [])"
proof -
  have d: "distinct (map ch (clients full_world))"
    by (simp add: full_world_facts slow_client_def other_client_def)
  have c: "clients full_world = [] @ slow_client # [other_client]"
    by (simp add: full_world_facts)
  have f: "chan_full full_world (ch slow_client)"
    by (simp add: full_world_facts slow_client_def chan_full_def)
  have b: "chan_buf full_world (ch slow_client) = replicate 100 hi"
    "chan_buf full_world (ch other_client) = []"
    by (simp_all add: full_world_facts slow_client_def other_client_def)
  have "\<forall>pre c post.
            clients full_world = pre @ c # post \<and>
            (\<forall>x\<in>set pre. \<not> chan_full full_world (ch x)) \<and>
            chan_full full_world (ch c) \<longrightarrow>
            (\<exists>w'. broadcast hi full_world = Blocked (c # post) w' \<and>
               (\<forall>x\<in>set pre. chan_buf w' (ch x) = chan_buf full_world (ch x) @ [hi]) \<and>
               (\<forall>x\<in>set (c # post). chan_buf w' (ch x) = chan_buf full_world (ch x)))"
    using broadcast_waits_at_full_queue[OF d, of hi] by (rule conjunct2)
  from this[rule_format, of "[]" slow_client "[other_client]"] c f
  obtain w' where "broadcast hi full_world = Blocked (slow_client # [other_client]) w'"
    "\<forall>x\<in>set (slow_client # [other_client]). chan_buf w' (ch x) = chan_buf full_world (ch x)"
    by auto
  then show ?thesis
    using d c f b by simp
qed

text \<open>
  C1 as stated fails: with the first of two clients at capacity, \<^verbatim>\<open>broadcast\<close>
  does not return and the second client, whose queue is empty, is not served.
\<close>

theorem broadcast_full_queue_counterexample:
  "chan_full full_world (ch slow_client) \<and>
   broadcast hi full_world =
     Blocked [slow_client, other_client] (print_line (Printf_Broadcasting hi) full_world) \<and>
   chan_buf (print_line (Printf_Broadcasting hi) full_world) (ch other_client) = []"
  by (simp add: broadcast_def full_world_facts slow_client_def other_client_def
        chan_full_def print_line_fields)









end
